theory Spec2Isabelle
  imports Complex_Main "HOL-Library.AList"
begin

section \<open>Errors\<close>

text \<open>
  The Python exceptions the two scripts can raise inside the functions modelled here:
  a dictionary read of a missing key, a sample larger than its population, and a float
  division by zero. A function that can raise returns \<open>error + 'a\<close>, \<open>Inl\<close> for the raise.
\<close>

datatype error = KeyError | ValueError | ZeroDivisionError

section \<open>The compartmental model (ui\_basic.py)\<close>

text \<open>
  Python floats are modelled as real numbers: rounding is not part of the model, so every
  statement below is about the exact arithmetic the script writes down.
\<close>

definition virus_survival_factor :: "real \<Rightarrow> real \<Rightarrow> real \<Rightarrow> real" where
  "virus_survival_factor temperature_c T0 alpha = 1 + alpha * max 0 (T0 - temperature_c)"









section \<open>The network model (ui\_advance.py)\<close>

subsection \<open>The random source\<close>

text \<open>
  The script draws from Python's global \<open>random\<close> module, which is not part of the
  repository. Its hidden generator state is made explicit: a state \<open>rng\<close> of any type
  \<open>'r\<close>, and a function \<open>rnd\<close> for \<open>random.random()\<close> that returns the draw and the next
  state. Every function that draws takes the state and returns the state it leaves behind.
  \<open>draws rnd rng k\<close> is the list of the next \<open>k\<close> draws.
\<close>

type_synonym 'r random = "'r \<Rightarrow> real \<times> 'r"

fun draws :: "'r random \<Rightarrow> 'r \<Rightarrow> nat \<Rightarrow> real list" where
  "draws rnd rng 0 = []"
| "draws rnd rng (Suc k) = fst (rnd rng) # draws rnd (snd (rnd rng)) k"

text \<open>
  \<open>random.sample(population, k)\<close> raises \<open>ValueError\<close> unless \<open>0 \<le> k \<le> len(population)\<close>
  and otherwise returns the elements at \<open>k\<close> distinct positions of the population. Which
  positions is the library's business: \<open>pick n k rng\<close> stands for that choice, and
  \<open>sampler_ok\<close> is what the library promises of it.
\<close>

type_synonym 'r sampler = "nat \<Rightarrow> nat \<Rightarrow> 'r \<Rightarrow> nat list \<times> 'r"

definition sampler_ok :: "'r sampler \<Rightarrow> bool" where
  "sampler_ok pick \<longleftrightarrow>
     (\<forall>n k rng. k \<le> n \<longrightarrow>
        length (fst (pick n k rng)) = k \<and> distinct (fst (pick n k rng))
        \<and> (\<forall>i \<in> set (fst (pick n k rng)). i < n))"

definition random_sample ::
  "'r sampler \<Rightarrow> 'a list \<Rightarrow> int \<Rightarrow> 'r \<Rightarrow> error + ('a list \<times> 'r)" where
  "random_sample pick population k rng =
     (if 0 \<le> k \<and> k \<le> int (length population) then
        (case pick (length population) (nat k) rng of
           (positions, rng') \<Rightarrow> Inr (map (\<lambda>i. population ! i) positions, rng'))
      else Inl ValueError)"

text \<open>
  Two concrete sources for running the model on examples: a tape of draws that is replayed
  in a cycle, and a sampler that takes the first \<open>k\<close> positions.
\<close>

definition tape_random :: "real list random" where
  "tape_random rng = (case rng of [] \<Rightarrow> (0, []) | u # us \<Rightarrow> (u, us @ [u]))"

definition first_positions :: "'r sampler" where
  "first_positions n k rng = ([0..<k], rng)"

subsection \<open>Graphs and node states\<close>

text \<open>
  A networkx graph, as far as the script uses it: \<open>G.nodes()\<close> in insertion order and
  \<open>G.neighbors(node)\<close>. A status dictionary maps a node to one of the strings
  \<open>'S'\<close>, \<open>'I'\<close>, \<open>'R'\<close>; it is an association list in insertion order with one entry per
  key, read by \<open>map_of\<close> and written by \<open>AList.update\<close>, which overwrites the entry of a
  key in place and appends a new key, as a Python dictionary does.
\<close>

record 'a graph =
  nodes :: "'a list"
  neighbors :: "'a \<Rightarrow> 'a list"

type_synonym 'a status = "('a \<times> string) list"

text \<open>
  Modelled from the spec: \<open>nx.erdos_renyi_graph(n, p)\<close> is library code outside the
  repository. The spec's words: a graph on \<open>n\<close> nodes where, for every unordered pair of
  distinct nodes, the edge is included independently with probability \<open>p\<close>. The nodes are
  \<open>0, ..., n - 1\<close>; one draw per pair decides the edge.
\<close>

definition node_pairs :: "nat \<Rightarrow> (nat \<times> nat) list" where
  "node_pairs n = concat (map (\<lambda>u. map (\<lambda>v. (u, v)) [Suc u..<n]) [0..<n])"

fun draw_edges ::
  "'r random \<Rightarrow> real \<Rightarrow> (nat \<times> nat) list \<Rightarrow> 'r \<Rightarrow> (nat \<times> nat) list \<times> 'r" where
  "draw_edges rnd p [] rng = ([], rng)"
| "draw_edges rnd p (e # es) rng =
     (case rnd rng of (u, rng') \<Rightarrow>
        case draw_edges rnd p es rng' of (chosen, rng'') \<Rightarrow>
          (if u < p then e # chosen else chosen, rng''))"

definition erdos_renyi_graph :: "'r random \<Rightarrow> int \<Rightarrow> real \<Rightarrow> 'r \<Rightarrow> nat graph \<times> 'r" where
  "erdos_renyi_graph rnd n p rng =
     (case draw_edges rnd p (node_pairs (nat n)) rng of
        (es, rng') \<Rightarrow>
          (\<lparr>nodes = [0..<nat n],
            neighbors = (\<lambda>u. filter (\<lambda>v. (u, v) \<in> set es \<or> (v, u) \<in> set es) [0..<nat n])\<rparr>,
           rng'))"

text \<open>Python's \<open>int(x)\<close> on a float truncates toward zero.\<close>

definition int_of_float :: "real \<Rightarrow> int" where
  "int_of_float x = (if 0 \<le> x then \<lfloor>x\<rfloor> else \<lceil>x\<rceil>)"

definition initialize_network ::
  "'r random \<Rightarrow> 'r sampler \<Rightarrow> int \<Rightarrow> real \<Rightarrow> real \<Rightarrow> 'r \<Rightarrow> error + (nat graph \<times> nat status \<times> 'r)" where
  "initialize_network rnd pick n p init_frac rng =
     (case erdos_renyi_graph rnd n p rng of
        (G, rng1) \<Rightarrow>
          let status = map (\<lambda>node. (node, ''S'')) (nodes G) in
          case random_sample pick (nodes G) (max 1 (int_of_float (init_frac * of_int n))) rng1 of
            Inl e \<Rightarrow> Inl e
          | Inr (infected, rng2) \<Rightarrow>
              Inr (G, fold (\<lambda>node st. AList.update node ''I'' st) infected status, rng2))"

subsection \<open>The simulation loop\<close>

text \<open>
  The body of \<open>run_simulation\<close>, innermost loop first. \<open>infect_neighbors\<close> is the loop over
  \<open>G.neighbors(node)\<close> (lines 42 to 44): \<open>curr[nbr]\<close> is read, and only when it is \<open>'S'\<close> is
  a number drawn. \<open>visit_node\<close> is the body of the loop over the nodes (lines 36 to 44),
  \<open>sweep_nodes\<close> that loop, and \<open>step\<close> one round of the outer loop after the snapshot is
  appended: \<open>new = curr.copy()\<close>, the sweep, \<open>curr = new\<close>. The source's \<open>curr\<close> is
  written \<open>cur\<close>, since \<open>curr\<close> is a constant of the library.
\<close>

fun infect_neighbors ::
  "'r random \<Rightarrow> 'a status \<Rightarrow> real \<Rightarrow> 'a list \<Rightarrow> 'a status \<Rightarrow> 'r \<Rightarrow> error + ('a status \<times> 'r)" where
  "infect_neighbors rnd cur beta [] new rng = Inr (new, rng)"
| "infect_neighbors rnd cur beta (nbr # nbrs) new rng =
     (case map_of cur nbr of
        None \<Rightarrow> Inl KeyError
      | Some s \<Rightarrow>
          if s = ''S'' then
            (case rnd rng of (u, rng') \<Rightarrow>
               if u < beta then infect_neighbors rnd cur beta nbrs (AList.update nbr ''I'' new) rng'
               else infect_neighbors rnd cur beta nbrs new rng')
          else infect_neighbors rnd cur beta nbrs new rng)"

definition visit_node ::
  "'r random \<Rightarrow> 'a graph \<Rightarrow> 'a status \<Rightarrow> real \<Rightarrow> real \<Rightarrow> 'a \<Rightarrow> 'a status \<Rightarrow> 'r
     \<Rightarrow> error + ('a status \<times> 'r)" where
  "visit_node rnd G cur beta gamma node new rng =
     (case map_of cur node of
        None \<Rightarrow> Inl KeyError
      | Some s \<Rightarrow>
          if s = ''I'' then
            (case rnd rng of (u, rng') \<Rightarrow>
               if u < gamma then Inr (AList.update node ''R'' new, rng')
               else infect_neighbors rnd cur beta (neighbors G node) new rng')
          else Inr (new, rng))"

fun sweep_nodes ::
  "'r random \<Rightarrow> 'a graph \<Rightarrow> 'a status \<Rightarrow> real \<Rightarrow> real \<Rightarrow> 'a list \<Rightarrow> 'a status \<Rightarrow> 'r
     \<Rightarrow> error + ('a status \<times> 'r)" where
  "sweep_nodes rnd G cur beta gamma [] new rng = Inr (new, rng)"
| "sweep_nodes rnd G cur beta gamma (node # rest) new rng =
     (case visit_node rnd G cur beta gamma node new rng of
        Inl e \<Rightarrow> Inl e
      | Inr (new', rng') \<Rightarrow> sweep_nodes rnd G cur beta gamma rest new' rng')"

definition step ::
  "'r random \<Rightarrow> 'a graph \<Rightarrow> 'a status \<Rightarrow> real \<Rightarrow> real \<Rightarrow> 'r \<Rightarrow> error + ('a status \<times> 'r)" where
  "step rnd G cur beta gamma rng = sweep_nodes rnd G cur beta gamma (nodes G) cur rng"

text \<open>
  The outer loop runs \<open>range((max_steps + 1) * 5)\<close>: each round appends the current
  snapshot and then steps, the last round included (its new state is dropped).
\<close>

fun run_loop ::
  "'r random \<Rightarrow> 'a graph \<Rightarrow> real \<Rightarrow> real \<Rightarrow> nat \<Rightarrow> 'a status \<Rightarrow> 'r \<Rightarrow> 'a status list
     \<Rightarrow> error + ('a status list \<times> 'r)" where
  "run_loop rnd G beta gamma 0 cur rng history = Inr (history, rng)"
| "run_loop rnd G beta gamma (Suc k) cur rng history =
     (case step rnd G cur beta gamma rng of
        Inl e \<Rightarrow> Inl e
      | Inr (new, rng') \<Rightarrow> run_loop rnd G beta gamma k new rng' (history @ [cur]))"

definition run_simulation ::
  "'r random \<Rightarrow> 'a graph \<Rightarrow> 'a status \<Rightarrow> real \<Rightarrow> real \<Rightarrow> int \<Rightarrow> 'r
     \<Rightarrow> error + ('a status list \<times> 'r)" where
  "run_simulation rnd G status0 beta gamma max_steps rng =
     run_loop rnd G beta gamma (nat ((max_steps + 1) * 5)) status0 rng []"

text \<open>
  \<open>steps i\<close> is \<open>step\<close> applied \<open>i\<close> times, the generator state threaded through; \<open>totals\<close> is
  the count the script prints under the plot (line 95), the number of values of a snapshot
  equal to \<open>s\<close>.
\<close>

fun steps ::
  "'r random \<Rightarrow> 'a graph \<Rightarrow> real \<Rightarrow> real \<Rightarrow> nat \<Rightarrow> 'a status \<Rightarrow> 'r \<Rightarrow> error + ('a status \<times> 'r)" where
  "steps rnd G beta gamma 0 cur rng = Inr (cur, rng)"
| "steps rnd G beta gamma (Suc i) cur rng =
     (case step rnd G cur beta gamma rng of
        Inl e \<Rightarrow> Inl e
      | Inr (new, rng') \<Rightarrow> steps rnd G beta gamma i new rng')"

definition totals :: "'a status \<Rightarrow> string \<Rightarrow> nat" where
  "totals status s = length (filter (\<lambda>v. v = s) (map snd status))"

subsection \<open>Predicates used in the statements and proofs\<close>

text \<open>
  \<open>status_covers G status\<close>: every node of the graph and every neighbour of a node is a
  key of the dictionary, so that no read of the simulation raises \<open>KeyError\<close>.
  \<open>evolves cur new\<close>: the keys are the same and every entry is unchanged, or went from
  \<open>'I'\<close> to \<open>'R'\<close>, or from \<open>'S'\<close> to \<open>'I'\<close>. \<open>later\<close> is what survives of that over
  several steps, and \<open>sir_values\<close> says that every value is one of the three letters.
  \<open>two_nodes\<close> is a small graph for concrete runs: the nodes 0 and 1 and the edge between
  them. \<open>sweep_inv G cur D new\<close> is the invariant of the loop over the nodes once the nodes
  in \<open>D\<close> have been visited: only they can have recovered, and every new infection has a
  visited neighbour that was infected and has not recovered. \<open>same_draws\<close> relates two
  generator states that produce the same sequence of draws, and \<open>same_result\<close> two
  results that are the same error, or the same value with generator states so related.
\<close>

definition evolves :: "'a status \<Rightarrow> 'a status \<Rightarrow> bool" where
  "evolves cur new \<longleftrightarrow>
     map fst new = map fst cur \<and>
     (\<forall>v. map_of new v = map_of cur v
        \<or> (map_of cur v = Some ''I'' \<and> map_of new v = Some ''R'')
        \<or> (map_of cur v = Some ''S'' \<and> map_of new v = Some ''I''))"

definition status_covers :: "'a graph \<Rightarrow> 'a status \<Rightarrow> bool" where
  "status_covers G status \<longleftrightarrow>
     (\<forall>v \<in> set (nodes G). v \<in> fst ` set status \<and> set (neighbors G v) \<subseteq> fst ` set status)"

definition two_nodes :: "nat graph" where
  "two_nodes = \<lparr>nodes = [0, 1], neighbors = (\<lambda>u. if u = 0 then [1] else if u = 1 then [0] else [])\<rparr>"

definition later :: "'a status \<Rightarrow> 'a status \<Rightarrow> bool" where
  "later a b \<longleftrightarrow>
     map fst b = map fst a \<and>
     (\<forall>v. (map_of a v = Some ''R'' \<longrightarrow> map_of b v = Some ''R'')
        \<and> (map_of a v = Some ''I'' \<longrightarrow> map_of b v = Some ''I'' \<or> map_of b v = Some ''R''))"

definition sir_values :: "'a status \<Rightarrow> bool" where
  "sir_values status \<longleftrightarrow> snd ` set status \<subseteq> {''S'', ''I'', ''R''}"


definition same_draws :: "'r random \<Rightarrow> 'r \<Rightarrow> 'q random \<Rightarrow> 'q \<Rightarrow> bool" where
  "same_draws rnd1 rng1 rnd2 rng2 \<longleftrightarrow> (\<forall>k. draws rnd1 rng1 k = draws rnd2 rng2 k)"

definition same_result ::
  "'r random \<Rightarrow> 'q random \<Rightarrow> error + ('x \<times> 'r) \<Rightarrow> error + ('x \<times> 'q) \<Rightarrow> bool" where
  "same_result rnd1 rnd2 x y \<longleftrightarrow>
     (case x of
        Inl e \<Rightarrow> y = Inl e
      | Inr (a, rng1) \<Rightarrow>
          (case y of Inl e \<Rightarrow> False | Inr (b, rng2) \<Rightarrow> a = b \<and> same_draws rnd1 rng1 rnd2 rng2))"

section \<open>Properties of the compartmental model\<close>








text \<open>
  Claim C7. \<open>virus_survival_factor\<close> is \<open>1 + alpha * max 0 (T0 - temperature)\<close>, and at or
  above the reference temperature it is exactly 1 for every sensitivity.
\<close>

theorem virus_survival_factor_floor:
  "virus_survival_factor temperature_c T0 alpha = 1 + alpha * max 0 (T0 - temperature_c)
   \<and> (T0 \<le> temperature_c \<longrightarrow> virus_survival_factor temperature_c T0 alpha = 1)"
  by (simp add: virus_survival_factor_def max_def)

theorem virus_survival_factor_floor_witness:
  "virus_survival_factor 25 10 (5 / 100) = 1 \<and> virus_survival_factor 0 10 (5 / 100) = 3 / 2"
  using virus_survival_factor_floor [of 25 10 "5 / 100"]
    virus_survival_factor_floor [of 0 10 "5 / 100"]
  by simp

section \<open>Properties of the network model\<close>

subsection \<open>The effect of one step\<close>

lemma update_present_keys:
  "map_of cur k = Some s \<Longrightarrow> map fst new = map fst cur \<Longrightarrow> map fst (AList.update k v new) = map fst cur"
  by (metis (no_types, lifting) domI dom_map_of_conv_image_fst list.set_map update_keys)

lemma infect_neighbors_effect:
  assumes "infect_neighbors rnd cur beta nbrs new rng = Inr (new', rng')"
    and "map fst new = map fst cur"
  shows "map fst new' = map fst cur \<and>
     (\<forall>v. map_of new' v = map_of new v
        \<or> (v \<in> set nbrs \<and> map_of cur v = Some ''S'' \<and> map_of new' v = Some ''I''))"
  using assms
proof (induction nbrs arbitrary: new rng)
  case Nil
  then show ?case by simp
next
  case (Cons nbr nbrs)
  obtain s where s: "map_of cur nbr = Some s"
    using Cons.prems(1) by (cases "map_of cur nbr") simp_all
  obtain u r where ur: "rnd rng = (u, r)" by (cases "rnd rng")
  show ?case
  proof (cases "s = ''S'' \<and> u < beta")
    case True
    let ?n = "AList.update nbr ''I'' new"
    have run: "infect_neighbors rnd cur beta nbrs ?n r = Inr (new', rng')"
      using Cons.prems(1) s ur True by simp
    have keys: "map fst ?n = map fst cur"
      using s Cons.prems(2) by (rule update_present_keys)
    from Cons.IH [OF run keys]
    have k: "map fst new' = map fst cur" and
      f: "\<And>v. map_of new' v = map_of ?n v
        \<or> (v \<in> set nbrs \<and> map_of cur v = Some ''S'' \<and> map_of new' v = Some ''I'')"
      by blast+
    have "map_of new' v = map_of new v
        \<or> (v \<in> set (nbr # nbrs) \<and> map_of cur v = Some ''S'' \<and> map_of new' v = Some ''I'')" for v
      using f [of v] s True by (cases "v = nbr") (auto simp: update_conv')
    with k show ?thesis by blast
  next
    case False
    then have "\<exists>r2. infect_neighbors rnd cur beta nbrs new r2 = Inr (new', rng')"
      using Cons.prems(1) s ur by (auto split: if_splits)
    then obtain r2 where run: "infect_neighbors rnd cur beta nbrs new r2 = Inr (new', rng')" ..
    from Cons.IH [OF run Cons.prems(2)] show ?thesis by auto
  qed
qed

lemma visit_node_effect:
  assumes "visit_node rnd G cur beta gamma node new rng = Inr (new', rng')"
    and "map fst new = map fst cur"
  shows "map fst new' = map fst cur \<and>
     (\<forall>v. map_of new' v = map_of new v
        \<or> (v = node \<and> map_of cur v = Some ''I'' \<and> map_of new' v = Some ''R'')
        \<or> (v \<in> set (neighbors G node) \<and> map_of cur v = Some ''S'' \<and> map_of new' v = Some ''I''))"
proof -
  obtain s where s: "map_of cur node = Some s"
    using assms(1) by (cases "map_of cur node") (simp_all add: visit_node_def)
  obtain u r where ur: "rnd rng = (u, r)" by (cases "rnd rng")
  consider (other) "s \<noteq> ''I''" | (recover) "s = ''I''" "u < gamma" | (stay) "s = ''I''" "\<not> u < gamma"
    by blast
  then show ?thesis
  proof cases
    case other
    then show ?thesis using assms s by (simp add: visit_node_def)
  next
    case recover
    then have "new' = AList.update node ''R'' new"
      using assms(1) s ur by (simp add: visit_node_def)
    then show ?thesis
      using s recover update_present_keys [OF s assms(2)] by (auto simp: update_conv')
  next
    case stay
    then have "infect_neighbors rnd cur beta (neighbors G node) new r = Inr (new', rng')"
      using assms(1) s ur by (simp add: visit_node_def)
    from infect_neighbors_effect [OF this assms(2)] show ?thesis by auto
  qed
qed

lemma visit_node_evolves:
  assumes "visit_node rnd G cur beta gamma node new rng = Inr (new', rng')" and "evolves cur new"
  shows "evolves cur new'"
proof -
  have k: "map fst new = map fst cur" using assms(2) by (simp add: evolves_def)
  have t: "\<And>v. map_of new v = map_of cur v
        \<or> (map_of cur v = Some ''I'' \<and> map_of new v = Some ''R'')
        \<or> (map_of cur v = Some ''S'' \<and> map_of new v = Some ''I'')"
    using assms(2) by (simp add: evolves_def)
  from visit_node_effect [OF assms(1) k]
  have e: "map fst new' = map fst cur" and
    f: "\<And>v. map_of new' v = map_of new v
        \<or> (v = node \<and> map_of cur v = Some ''I'' \<and> map_of new' v = Some ''R'')
        \<or> (v \<in> set (neighbors G node) \<and> map_of cur v = Some ''S'' \<and> map_of new' v = Some ''I'')"
    by blast+
  show ?thesis
    unfolding evolves_def
  proof (intro conjI allI)
    show "map fst new' = map fst cur" by (rule e)
  next
    fix v
    show "map_of new' v = map_of cur v
        \<or> (map_of cur v = Some ''I'' \<and> map_of new' v = Some ''R'')
        \<or> (map_of cur v = Some ''S'' \<and> map_of new' v = Some ''I'')"
      using t [of v] f [of v] by auto
  qed
qed

lemma sweep_nodes_evolves:
  assumes "sweep_nodes rnd G cur beta gamma ns new rng = Inr (new', rng')" and "evolves cur new"
  shows "evolves cur new'"
  using assms
proof (induction ns arbitrary: new rng)
  case Nil
  then show ?case by simp
next
  case (Cons node ns)
  from Cons.prems(1) obtain n1 r1 where
    v: "visit_node rnd G cur beta gamma node new rng = Inr (n1, r1)" and
    s: "sweep_nodes rnd G cur beta gamma ns n1 r1 = Inr (new', rng')"
    by (auto split: sum.splits)
  from Cons.IH [OF s visit_node_evolves [OF v Cons.prems(2)]] show ?case .
qed

lemma evolves_refl: "evolves cur cur"
  by (simp add: evolves_def)

lemma step_evolves:
  "step rnd G cur beta gamma rng = Inr (new, rng') \<Longrightarrow> evolves cur new"
  unfolding step_def by (rule sweep_nodes_evolves [OF _ evolves_refl])

subsection \<open>The simulation returns\<close>

lemma map_of_present: "k \<in> fst ` set al \<Longrightarrow> \<exists>s. map_of al k = Some s"
  by (cases "map_of al k") (simp_all add: map_of_eq_None_iff)

lemma infect_neighbors_returns:
  "set nbrs \<subseteq> fst ` set cur \<Longrightarrow> \<exists>res. infect_neighbors rnd cur beta nbrs new rng = Inr res"
proof (induction nbrs arbitrary: new rng)
  case Nil
  then show ?case by simp
next
  case (Cons nbr nbrs)
  then obtain s where s: "map_of cur nbr = Some s"
    using map_of_present [of nbr cur] by auto
  obtain u r where ur: "rnd rng = (u, r)" by (cases "rnd rng")
  have sub: "set nbrs \<subseteq> fst ` set cur" using Cons.prems by simp
  show ?case
    using s ur Cons.IH [OF sub] by simp
qed

lemma visit_node_returns:
  assumes "node \<in> fst ` set cur" and "set (neighbors G node) \<subseteq> fst ` set cur"
  shows "\<exists>res. visit_node rnd G cur beta gamma node new rng = Inr res"
proof -
  obtain s where s: "map_of cur node = Some s"
    using map_of_present [OF assms(1)] ..
  obtain u r where ur: "rnd rng = (u, r)" by (cases "rnd rng")
  show ?thesis
    using s ur infect_neighbors_returns [OF assms(2), of rnd beta new r]
    by (simp add: visit_node_def)
qed

lemma sweep_nodes_returns:
  "\<forall>v \<in> set ns. v \<in> fst ` set cur \<and> set (neighbors G v) \<subseteq> fst ` set cur \<Longrightarrow>
   \<exists>res. sweep_nodes rnd G cur beta gamma ns new rng = Inr res"
proof (induction ns arbitrary: new rng)
  case Nil
  then show ?case by simp
next
  case (Cons node ns)
  then obtain n1 r1 where v: "visit_node rnd G cur beta gamma node new rng = Inr (n1, r1)"
    using visit_node_returns [of node cur G rnd beta gamma new rng] by auto
  have "\<forall>v \<in> set ns. v \<in> fst ` set cur \<and> set (neighbors G v) \<subseteq> fst ` set cur"
    using Cons.prems by simp
  from Cons.IH [OF this, of n1 r1] show ?case using v by simp
qed

lemma step_returns:
  "status_covers G cur \<Longrightarrow> \<exists>new rng'. step rnd G cur beta gamma rng = Inr (new, rng')"
  using sweep_nodes_returns [of "nodes G" cur G rnd beta gamma cur rng]
  by (simp add: step_def status_covers_def)

lemma step_covers:
  assumes "step rnd G cur beta gamma rng = Inr (new, rng')" and "status_covers G cur"
  shows "status_covers G new"
proof -
  have "map fst new = map fst cur"
    using step_evolves [OF assms(1)] by (simp add: evolves_def)
  then have "fst ` set new = fst ` set cur"
    by (metis list.set_map)
  then show ?thesis using assms(2) by (simp add: status_covers_def)
qed

lemma run_loop_history:
  "run_loop rnd G beta gamma k cur rng history = Inr (h, r') \<Longrightarrow>
   \<exists>tail. h = history @ tail \<and> length tail = k \<and>
     (\<forall>i<k. \<exists>r. steps rnd G beta gamma i cur rng = Inr (tail ! i, r))"
proof (induction k arbitrary: cur rng history)
  case 0
  then show ?case by simp
next
  case (Suc k)
  from Suc.prems obtain new r1 where
    s: "step rnd G cur beta gamma rng = Inr (new, r1)" and
    l: "run_loop rnd G beta gamma k new r1 (history @ [cur]) = Inr (h, r')"
    by (auto split: sum.splits)
  from Suc.IH [OF l] obtain tail where
    t: "h = (history @ [cur]) @ tail" "length tail = k"
    "\<forall>i<k. \<exists>r. steps rnd G beta gamma i new r1 = Inr (tail ! i, r)"
    by blast
  have "\<exists>r. steps rnd G beta gamma i cur rng = Inr ((cur # tail) ! i, r)" if "i < Suc k" for i
  proof (cases i)
    case 0
    then show ?thesis by simp
  next
    case (Suc j)
    then have "j < k" using that by simp
    then show ?thesis using t(3) s Suc by simp
  qed
  then show ?case using t(1,2) by (intro exI [of _ "cur # tail"]) simp
qed

lemma run_loop_returns:
  "status_covers G cur \<Longrightarrow> \<exists>h r'. run_loop rnd G beta gamma k cur rng history = Inr (h, r')"
proof (induction k arbitrary: cur rng history)
  case 0
  then show ?case by simp
next
  case (Suc k)
  from step_returns [OF Suc.prems, of rnd beta gamma rng] obtain new r1 where
    s: "step rnd G cur beta gamma rng = Inr (new, r1)" by blast
  from Suc.IH [OF step_covers [OF s Suc.prems], of r1 "history @ [cur]"]
  show ?case using s by simp
qed

text \<open>
  Claim C1, as the code has it. When the initial state has an entry for every node of the
  graph and for every neighbour of a node, \<open>run_simulation\<close> returns a history of
  \<open>(max_steps + 1) * 5\<close> snapshots (not \<open>max_steps + 1\<close>), snapshot \<open>i\<close> is \<open>step\<close>
  applied \<open>i\<close> times to the initial state, and for \<open>max_steps \<ge> 0\<close> snapshot 0 is the
  initial state.
\<close>

theorem run_simulation_history:
  assumes "status_covers G status0"
  shows "\<exists>history rng'.
     run_simulation rnd G status0 beta gamma max_steps rng = Inr (history, rng')
     \<and> length history = nat ((max_steps + 1) * 5)
     \<and> (\<forall>i < length history.
          \<exists>r. steps rnd G beta gamma i status0 rng = Inr (history ! i, r))
     \<and> (0 \<le> max_steps \<longrightarrow> history ! 0 = status0)"
proof -
  let ?k = "nat ((max_steps + 1) * 5)"
  from run_loop_returns [OF assms, of rnd beta gamma ?k rng "[]"] obtain h r' where
    r: "run_loop rnd G beta gamma ?k status0 rng [] = Inr (h, r')" by blast
  from run_loop_history [OF r] have
    len: "length h = ?k" and
    st: "\<forall>i<?k. \<exists>r. steps rnd G beta gamma i status0 rng = Inr (h ! i, r)"
    by auto
  have "h ! 0 = status0" if "0 \<le> max_steps"
  proof -
    have "0 < ?k" using that by simp
    with st obtain r where "steps rnd G beta gamma 0 status0 rng = Inr (h ! 0, r)" by blast
    then show ?thesis by simp
  qed
  with r len st show ?thesis by (simp add: run_simulation_def)
qed

subsection \<open>Monotone node states\<close>

lemma later_refl: "later a a"
  by (simp add: later_def)

lemma later_trans:
  assumes "later a b" and "later b c"
  shows "later a c"
proof -
  have k: "map fst c = map fst a" using assms by (simp add: later_def)
  have ab: "\<And>v. map_of a v = Some ''R'' \<Longrightarrow> map_of b v = Some ''R''"
    "\<And>v. map_of a v = Some ''I'' \<Longrightarrow> map_of b v = Some ''I'' \<or> map_of b v = Some ''R''"
    using assms(1) by (simp_all add: later_def)
  have bc: "\<And>v. map_of b v = Some ''R'' \<Longrightarrow> map_of c v = Some ''R''"
    "\<And>v. map_of b v = Some ''I'' \<Longrightarrow> map_of c v = Some ''I'' \<or> map_of c v = Some ''R''"
    using assms(2) by (simp_all add: later_def)
  have "map_of a v = Some ''R'' \<longrightarrow> map_of c v = Some ''R''" for v
    using ab(1) bc(1) by blast
  moreover have "map_of a v = Some ''I'' \<longrightarrow> map_of c v = Some ''I'' \<or> map_of c v = Some ''R''" for v
    using ab(2) [of v] bc by blast
  ultimately show ?thesis using k by (simp add: later_def)
qed

lemma evolves_later:
  assumes "evolves a b"
  shows "later a b"
proof -
  have k: "map fst b = map fst a" using assms by (simp add: evolves_def)
  have e: "map_of b v = map_of a v
        \<or> (map_of a v = Some ''I'' \<and> map_of b v = Some ''R'')
        \<or> (map_of a v = Some ''S'' \<and> map_of b v = Some ''I'')" for v
    using assms by (simp add: evolves_def)
  have "(map_of a v = Some ''R'' \<longrightarrow> map_of b v = Some ''R'')
        \<and> (map_of a v = Some ''I'' \<longrightarrow> map_of b v = Some ''I'' \<or> map_of b v = Some ''R'')" for v
    using e [of v] by auto
  then show ?thesis using k by (simp add: later_def)
qed

lemma steps_later:
  "steps rnd G beta gamma d a r = Inr (b, rb) \<Longrightarrow> later a b"
proof (induction d arbitrary: a r)
  case 0
  then show ?case by (simp add: later_refl)
next
  case (Suc d)
  from Suc.prems obtain c r1 where
    s: "step rnd G a beta gamma r = Inr (c, r1)" and
    t: "steps rnd G beta gamma d c r1 = Inr (b, rb)"
    by (auto split: sum.splits)
  from later_trans [OF evolves_later [OF step_evolves [OF s]] Suc.IH [OF t]] show ?case .
qed

lemma steps_add:
  "steps rnd G beta gamma (i + d) cur rng =
     (case steps rnd G beta gamma i cur rng of
        Inl e \<Rightarrow> Inl e
      | Inr (c, r) \<Rightarrow> steps rnd G beta gamma d c r)"
  by (induction i arbitrary: cur rng) (auto split: sum.splits)

lemma run_simulation_steps:
  assumes "run_simulation rnd G status0 beta gamma max_steps rng = Inr (history, rng')"
    and "i < length history"
  shows "\<exists>r. steps rnd G beta gamma i status0 rng = Inr (history ! i, r)"
  using run_loop_history [OF assms(1) [unfolded run_simulation_def]] assms(2) by auto

text \<open>
  Claim C8. In a history that \<open>run_simulation\<close> returns, a node that is \<open>'R'\<close> in
  snapshot \<open>i\<close> is \<open>'R'\<close> in every later snapshot \<open>j\<close>, and a node that is \<open>'I'\<close> in
  snapshot \<open>i\<close> is not \<open>'S'\<close> in any later one.
\<close>

theorem run_simulation_monotone:
  assumes "run_simulation rnd G status0 beta gamma max_steps rng = Inr (history, rng')"
    and "i \<le> j" and "j < length history"
  shows "(map_of (history ! i) v = Some ''R'' \<longrightarrow> map_of (history ! j) v = Some ''R'')
       \<and> (map_of (history ! i) v = Some ''I'' \<longrightarrow> map_of (history ! j) v \<noteq> Some ''S'')"
proof -
  have "i < length history" using assms(2,3) by simp
  from run_simulation_steps [OF assms(1) this] obtain ri where
    si: "steps rnd G beta gamma i status0 rng = Inr (history ! i, ri)" ..
  from run_simulation_steps [OF assms(1,3)] obtain rj where
    sj: "steps rnd G beta gamma j status0 rng = Inr (history ! j, rj)" ..
  have "steps rnd G beta gamma (i + (j - i)) status0 rng = Inr (history ! j, rj)"
    using sj assms(2) by simp
  then have "steps rnd G beta gamma (j - i) (history ! i) ri = Inr (history ! j, rj)"
    unfolding steps_add using si by simp
  from steps_later [OF this] show ?thesis
    unfolding later_def by auto
qed

subsection \<open>Values and counts\<close>

lemma update_values: "snd ` set (AList.update k v al) \<subseteq> insert v (snd ` set al)"
  by (induction al) auto

lemma update_sir_values:
  "sir_values al \<Longrightarrow> v \<in> {''S'', ''I'', ''R''} \<Longrightarrow> sir_values (AList.update k v al)"
  unfolding sir_values_def using update_values [of k v al] by blast

lemma infect_neighbors_values:
  "infect_neighbors rnd cur beta nbrs new rng = Inr (new', rng') \<Longrightarrow> sir_values new \<Longrightarrow>
   sir_values new'"
proof (induction nbrs arbitrary: new rng)
  case Nil
  then show ?case by simp
next
  case (Cons nbr nbrs)
  obtain u r where ur: "rnd rng = (u, r)" by (cases "rnd rng")
  have i: "sir_values (AList.update nbr ''I'' new)"
    using Cons.prems(2) by (rule update_sir_values) simp
  from Cons.prems(1) ur show ?case
    using Cons.IH [OF _ i] Cons.IH [OF _ Cons.prems(2)]
    by (auto split: option.splits if_splits)
qed

lemma visit_node_values:
  assumes "visit_node rnd G cur beta gamma node new rng = Inr (new', rng')" and "sir_values new"
  shows "sir_values new'"
proof -
  obtain u r where ur: "rnd rng = (u, r)" by (cases "rnd rng")
  have i: "sir_values (AList.update node ''R'' new)"
    using assms(2) by (rule update_sir_values) simp
  from assms ur i show ?thesis
    by (auto simp: visit_node_def split: option.splits if_splits dest: infect_neighbors_values)
qed

lemma sweep_nodes_values:
  "sweep_nodes rnd G cur beta gamma ns new rng = Inr (new', rng') \<Longrightarrow> sir_values new \<Longrightarrow>
   sir_values new'"
proof (induction ns arbitrary: new rng)
  case Nil
  then show ?case by simp
next
  case (Cons node ns)
  from Cons.prems(1) obtain n1 r1 where
    v: "visit_node rnd G cur beta gamma node new rng = Inr (n1, r1)" and
    s: "sweep_nodes rnd G cur beta gamma ns n1 r1 = Inr (new', rng')"
    by (auto split: sum.splits)
  from Cons.IH [OF s visit_node_values [OF v Cons.prems(2)]] show ?case .
qed

lemma steps_values:
  "steps rnd G beta gamma d a r = Inr (b, rb) \<Longrightarrow> sir_values a \<Longrightarrow> sir_values b"
proof (induction d arbitrary: a r)
  case 0
  then show ?case by simp
next
  case (Suc d)
  from Suc.prems(1) obtain c r1 where
    s: "step rnd G a beta gamma r = Inr (c, r1)" and
    t: "steps rnd G beta gamma d c r1 = Inr (b, rb)"
    by (auto split: sum.splits)
  have "sir_values c"
    using s Suc.prems(2) unfolding step_def by (rule sweep_nodes_values)
  from Suc.IH [OF t this] show ?case .
qed

lemma totals_sum:
  "sir_values status \<Longrightarrow>
   totals status ''S'' + totals status ''I'' + totals status ''R'' = length status"
  by (induction status) (auto simp: sir_values_def totals_def)

subsection \<open>A run on two nodes\<close>

lemma two_nodes_covers: "status_covers two_nodes [(0, ''I''), (1, ''S'')]"
  by (simp add: status_covers_def two_nodes_def)

text \<open>The history theorem of claim C1 on the two-node graph, one step requested.\<close>

theorem run_simulation_history_witness:
  "status_covers two_nodes [(0, ''I''), (1, ''S'')]
   \<and> (\<exists>history rng'.
     run_simulation tape_random two_nodes [(0, ''I''), (1, ''S'')] (1/2) (1/2) 0 [3/4, 1/4] = Inr (history, rng')
     \<and> length history = 5
     \<and> (\<exists>r. steps tape_random two_nodes (1/2) (1/2) 3 [(0, ''I''), (1, ''S'')] [3/4, 1/4] = Inr (history ! 3, r))
     \<and> history ! 0 = [(0, ''I''), (1, ''S'')])"
proof -
  from run_simulation_history [OF two_nodes_covers, of tape_random "1/2" "1/2" 0 "[3/4, 1/4]"]
  obtain history rng' where
    h: "run_simulation tape_random two_nodes [(0, ''I''), (1, ''S'')] (1/2) (1/2) 0 [3/4, 1/4] = Inr (history, rng')"
    "length history = 5"
    "\<forall>i < length history. \<exists>r. steps tape_random two_nodes (1/2) (1/2) i [(0, ''I''), (1, ''S'')] [3/4, 1/4] = Inr (history ! i, r)"
    "history ! 0 = [(0, ''I''), (1, ''S'')]"
    by auto
  from h(2,3) have "\<exists>r. steps tape_random two_nodes (1/2) (1/2) 3 [(0, ''I''), (1, ''S'')] [3/4, 1/4] = Inr (history ! 3, r)"
    by simp
  with h two_nodes_covers show ?thesis by blast
qed

text \<open>
  Claim C1 as stated fails: with \<open>max_steps = 0\<close> the history has five snapshots, not one,
  and an initial state that lacks node 1 makes the first read of \<open>curr[nbr]\<close> raise
  \<open>KeyError\<close>.
\<close>

theorem run_simulation_length_counterexample:
  "run_simulation tape_random two_nodes [(0, ''I''), (1, ''S'')] (1/2) (1/2) 0 [3/4, 1/4] =
     Inr ([[(0, ''I''), (1, ''S'')], [(0, ''I''), (1, ''I'')], [(0, ''I''), (1, ''R'')],
           [(0, ''I''), (1, ''R'')], [(0, ''R''), (1, ''R'')]], [3/4, 1/4])
   \<and> length (fst (projr (run_simulation tape_random two_nodes [(0, ''I''), (1, ''S'')] (1/2) (1/2) 0 [3/4, 1/4])))
       \<noteq> nat (0 + 1)
   \<and> run_simulation tape_random two_nodes [(0, ''I'')] (1/2) (1/2) 0 [3/4, 1/4] = Inl KeyError"
  by (simp add: run_simulation_def step_def visit_node_def tape_random_def two_nodes_def eval_nat_numeral)

subsection \<open>Initialisation\<close>

lemma erdos_renyi_graph_nodes:
  assumes "erdos_renyi_graph rnd n p rng = (G, rng')"
  shows "nodes G = [0..<nat n]" and "set (neighbors G u) \<subseteq> set (nodes G)"
  using assms by (auto simp: erdos_renyi_graph_def split: prod.splits)

lemma update_map_entry:
  "distinct ns \<Longrightarrow> x \<in> set ns \<Longrightarrow>
   AList.update x c (map (\<lambda>v. (v, f v)) ns) = map (\<lambda>v. (v, if v = x then c else f v)) ns"
  by (induction ns) auto

lemma fold_update_map:
  "distinct ns \<Longrightarrow> set xs \<subseteq> set ns \<Longrightarrow>
   fold (\<lambda>node st. AList.update node c st) xs (map (\<lambda>v. (v, f v)) ns)
     = map (\<lambda>v. (v, if v \<in> set xs then c else f v)) ns"
proof (induction xs arbitrary: f)
  case Nil
  then show ?case by simp
next
  case (Cons x xs)
  have x: "x \<in> set ns" and sub: "set xs \<subseteq> set ns" using Cons.prems(2) by simp_all
  have "fold (\<lambda>node st. AList.update node c st) (x # xs) (map (\<lambda>v. (v, f v)) ns)
      = fold (\<lambda>node st. AList.update node c st) xs (map (\<lambda>v. (v, if v = x then c else f v)) ns)"
    by (simp add: update_map_entry [OF Cons.prems(1) x])
  also have "\<dots> = map (\<lambda>v. (v, if v \<in> set xs then c else (if v = x then c else f v))) ns"
    by (rule Cons.IH [OF Cons.prems(1) sub])
  also have "\<dots> = map (\<lambda>v. (v, if v \<in> set (x # xs) then c else f v)) ns"
    by auto
  finally show ?case .
qed

lemma random_sample_result:
  assumes ok: "sampler_ok pick" and k: "0 \<le> k" "k \<le> int (length population)"
    and d: "distinct population"
  shows "\<exists>xs rng'. random_sample pick population k rng = Inr (xs, rng')
     \<and> distinct xs \<and> set xs \<subseteq> set population \<and> int (length xs) = k"
proof -
  let ?n = "length population"
  obtain ps r where p: "pick ?n (nat k) rng = (ps, r)" by (cases "pick ?n (nat k) rng")
  have le: "nat k \<le> ?n" using k by simp
  have c: "length ps = nat k" "distinct ps" "\<forall>i \<in> set ps. i < ?n"
    using ok [unfolded sampler_ok_def, rule_format, OF le, of rng] p by simp_all
  have "inj_on (\<lambda>i. population ! i) (set ps)"
    using c(3) d by (auto simp: inj_on_def nth_eq_iff_index_eq)
  then have "distinct (map (\<lambda>i. population ! i) ps)"
    using c(2) by (simp add: distinct_map)
  moreover have "set (map (\<lambda>i. population ! i) ps) \<subseteq> set population"
    using c(3) by auto
  moreover have "int (length (map (\<lambda>i. population ! i) ps)) = k"
    using c(1) k(1) by simp
  moreover have "random_sample pick population k rng = Inr (map (\<lambda>i. population ! i) ps, r)"
    using k p by (simp add: random_sample_def)
  ultimately show ?thesis by blast
qed




lemma first_positions_ok: "sampler_ok first_positions"
  by (simp add: sampler_ok_def first_positions_def)


lemma two_nodes_run:
  "run_simulation tape_random two_nodes [(0, ''I''), (1, ''S'')] (1/2) (1/2) 0 [3/4, 1/4] =
     Inr ([[(0, ''I''), (1, ''S'')], [(0, ''I''), (1, ''I'')], [(0, ''I''), (1, ''R'')],
           [(0, ''I''), (1, ''R'')], [(0, ''R''), (1, ''R'')]], [3/4, 1/4])"
  by (simp add: run_simulation_def step_def visit_node_def tape_random_def two_nodes_def eval_nat_numeral)

text \<open>
  The monotonicity theorem of claim C8 on the run of the two-node graph: node 1 is \<open>'R'\<close> in
  snapshots 2 and 4, node 0 is \<open>'I'\<close> in snapshot 2 and not \<open>'S'\<close> in snapshot 4.
\<close>

theorem run_simulation_monotone_witness:
  "map_of ([[(0::nat, ''I''), (1, ''S'')], [(0, ''I''), (1, ''I'')], [(0, ''I''), (1, ''R'')],
           [(0, ''I''), (1, ''R'')], [(0, ''R''), (1, ''R'')]] ! 2) 1 = Some ''R''
   \<and> map_of ([[(0::nat, ''I''), (1, ''S'')], [(0, ''I''), (1, ''I'')], [(0, ''I''), (1, ''R'')],
           [(0, ''I''), (1, ''R'')], [(0, ''R''), (1, ''R'')]] ! 4) 1 = Some ''R''
   \<and> map_of ([[(0::nat, ''I''), (1, ''S'')], [(0, ''I''), (1, ''I'')], [(0, ''I''), (1, ''R'')],
           [(0, ''I''), (1, ''R'')], [(0, ''R''), (1, ''R'')]] ! 2) 0 = Some ''I''
   \<and> map_of ([[(0::nat, ''I''), (1, ''S'')], [(0, ''I''), (1, ''I'')], [(0, ''I''), (1, ''R'')],
           [(0, ''I''), (1, ''R'')], [(0, ''R''), (1, ''R'')]] ! 4) 0 \<noteq> Some ''S''"
  using run_simulation_monotone [OF two_nodes_run, of 2 4 1]
    run_simulation_monotone [OF two_nodes_run, of 2 4 0]
  by simp


lemma initialize_network_wf:
  assumes ok: "sampler_ok pick"
    and i: "initialize_network rnd pick n p init_frac rng = Inr (G, status0, rng1)"
  shows "nodes G = [0..<nat n]" and "1 \<le> n" and "map fst status0 = nodes G"
    and "sir_values status0" and "status_covers G status0"
proof -
  obtain G' r1 where g: "erdos_renyi_graph rnd n p rng = (G', r1)"
    by (cases "erdos_renyi_graph rnd n p rng")
  let ?k = "max 1 (int_of_float (init_frac * of_int n))"
  from i g obtain xs where
    s: "random_sample pick (nodes G') ?k r1 = Inr (xs, rng1)" and
    G: "G = G'" and
    st: "status0 = fold (\<lambda>node st. AList.update node ''I'' st) xs (map (\<lambda>v. (v, ''S'')) (nodes G'))"
    by (auto simp: initialize_network_def split: sum.splits)
  show ns: "nodes G = [0..<nat n]" using erdos_renyi_graph_nodes(1) [OF g] G by simp
  have nb: "set (neighbors G u) \<subseteq> set (nodes G)" for u
    using erdos_renyi_graph_nodes(2) [OF g, of u] G by simp
  have d: "distinct (nodes G')" using ns G by simp
  have k: "0 \<le> ?k" "?k \<le> int (length (nodes G'))"
    using s by (simp_all add: random_sample_def split: if_splits)
  have "1 \<le> int (length (nodes G'))" using k(2) by linarith
  then show "1 \<le> n" using ns G by simp
  from random_sample_result [OF ok k d, of r1] s have x: "set xs \<subseteq> set (nodes G')"
    by auto
  have m: "status0 = map (\<lambda>v. (v, if v \<in> set xs then ''I'' else ''S'')) (nodes G)"
    using st G by (simp add: fold_update_map [OF d x])
  show k: "map fst status0 = nodes G" unfolding m by (simp add: comp_def)
  show "sir_values status0" unfolding m sir_values_def by (auto split: if_splits)
  have "fst ` set status0 = set (nodes G)" using k by (metis list.set_map)
  then show "status_covers G status0" using nb by (simp add: status_covers_def)
qed

text \<open>
  Claim C10. When \<open>initialize_network\<close> has returned a graph and a status, \<open>run_simulation\<close> on
  them returns a history, and every snapshot of it has exactly the graph's nodes as keys (in
  the graph's order), only the values \<open>'S'\<close>, \<open>'I'\<close>, \<open>'R'\<close>, and counts of the three that
  add up to \<open>n\<close>.
\<close>

theorem run_simulation_population:
  assumes "sampler_ok pick"
    and "initialize_network rnd pick n p init_frac rng = Inr (G, status0, rng1)"
  shows "\<exists>history rng2.
     run_simulation rnd G status0 beta gamma max_steps rng1 = Inr (history, rng2)
     \<and> length history = nat ((max_steps + 1) * 5)
     \<and> (\<forall>h \<in> set history.
          map fst h = nodes G \<and> snd ` set h \<subseteq> {''S'', ''I'', ''R''}
          \<and> int (totals h ''S'' + totals h ''I'' + totals h ''R'') = n)"
proof -
  note wf = initialize_network_wf [OF assms]
  let ?k = "nat ((max_steps + 1) * 5)"
  from run_loop_returns [OF wf(5), of rnd beta gamma ?k rng1 "[]"] obtain history rng2 where
    r: "run_simulation rnd G status0 beta gamma max_steps rng1 = Inr (history, rng2)"
    by (auto simp: run_simulation_def)
  have len: "length history = ?k"
    using run_loop_history [OF r [unfolded run_simulation_def]] by auto
  have "map fst h = nodes G \<and> snd ` set h \<subseteq> {''S'', ''I'', ''R''}
          \<and> int (totals h ''S'' + totals h ''I'' + totals h ''R'') = n" if "h \<in> set history" for h
  proof -
    from that obtain i where i: "i < length history" "h = history ! i"
      by (auto simp: in_set_conv_nth)
    from run_simulation_steps [OF r i(1)] i(2) obtain ri where
      s: "steps rnd G beta gamma i status0 rng1 = Inr (h, ri)" by auto
    have k: "map fst h = nodes G"
      using steps_later [OF s] wf(3) by (simp add: later_def)
    have v: "sir_values h" using s wf(4) by (rule steps_values)
    have "length h = length (nodes G)" using k by (metis length_map)
    then have "int (totals h ''S'' + totals h ''I'' + totals h ''R'') = n"
      using totals_sum [OF v] wf(1,2) by simp
    with k v show ?thesis by (simp add: sir_values_def)
  qed
  with r len show ?thesis by blast
qed

lemma three_nodes_init:
  "\<exists>G. initialize_network tape_random first_positions 3 (1/2) (1/2) [3/4, 1/4]
     = Inr (G, [(0, ''I''), (1, ''S''), (2, ''S'')], [1/4, 3/4])"
  by (simp add: initialize_network_def erdos_renyi_graph_def node_pairs_def tape_random_def
      first_positions_def random_sample_def int_of_float_def eval_nat_numeral)

text \<open>
  The population theorem of claim C10 on three nodes: ten snapshots, each over the three nodes.
\<close>

theorem run_simulation_population_witness:
  "sampler_ok (first_positions :: real list sampler)
   \<and> (\<exists>G history rng2.
     initialize_network tape_random first_positions 3 (1/2) (1/2) [3/4, 1/4]
       = Inr (G, [(0, ''I''), (1, ''S''), (2, ''S'')], [1/4, 3/4])
     \<and> run_simulation tape_random G [(0, ''I''), (1, ''S''), (2, ''S'')] (1/2) (1/2) 1 [1/4, 3/4]
       = Inr (history, rng2)
     \<and> length history = 10
     \<and> map fst (history ! 9) = nodes G
     \<and> totals (history ! 9) ''S'' + totals (history ! 9) ''I'' + totals (history ! 9) ''R'' = 3)"
proof -
  obtain G where
    i: "initialize_network tape_random first_positions 3 (1/2) (1/2) [3/4, 1/4]
     = Inr (G, [(0, ''I''), (1, ''S''), (2, ''S'')], [1/4, 3/4])"
    using three_nodes_init by blast
  from run_simulation_population [OF first_positions_ok i, of "1/2" "1/2" 1]
  obtain history rng2 where
    h: "run_simulation tape_random G [(0, ''I''), (1, ''S''), (2, ''S'')] (1/2) (1/2) 1 [1/4, 3/4]
       = Inr (history, rng2)"
    "length history = 10"
    "\<forall>h \<in> set history. map fst h = nodes G \<and> snd ` set h \<subseteq> {''S'', ''I'', ''R''}
          \<and> int (totals h ''S'' + totals h ''I'' + totals h ''R'') = 3"
    by auto
  have "history ! 9 \<in> set history" using h(2) by simp
  with h(3) have "map fst (history ! 9) = nodes G"
    "int (totals (history ! 9) ''S'' + totals (history ! 9) ''I'' + totals (history ! 9) ''R'') = 3"
    by blast+
  then have "map fst (history ! 9) = nodes G"
    "totals (history ! 9) ''S'' + totals (history ! 9) ''I'' + totals (history ! 9) ''R'' = 3"
    by simp_all
  with i h(1,2) first_positions_ok show ?thesis by blast
qed

subsection \<open>Who infects whom in one step\<close>









subsection \<open>Dependence on the random source\<close>

lemma same_draws_next:
  assumes "same_draws rnd1 rng1 rnd2 rng2"
  shows "fst (rnd1 rng1) = fst (rnd2 rng2)"
    and "same_draws rnd1 (snd (rnd1 rng1)) rnd2 (snd (rnd2 rng2))"
proof -
  have s: "draws rnd1 rng1 (Suc k) = draws rnd2 rng2 (Suc k)" for k
    using assms unfolding same_draws_def by blast
  show "fst (rnd1 rng1) = fst (rnd2 rng2)" using s [of 0] by simp
  show "same_draws rnd1 (snd (rnd1 rng1)) rnd2 (snd (rnd2 rng2))"
    unfolding same_draws_def using s by simp
qed

lemma same_result_Inl: "same_result rnd1 rnd2 (Inl e) (Inl e)"
  by (simp add: same_result_def)

lemma same_result_Inr:
  "same_draws rnd1 rng1 rnd2 rng2 \<Longrightarrow> same_result rnd1 rnd2 (Inr (a, rng1)) (Inr (a, rng2))"
  by (simp add: same_result_def)

lemma same_result_cases:
  assumes "same_result rnd1 rnd2 x y"
  obtains (err) e where "x = Inl e" "y = Inl e"
  | (ok) a rng1 rng2 where "x = Inr (a, rng1)" "y = Inr (a, rng2)" "same_draws rnd1 rng1 rnd2 rng2"
proof (cases x)
  case (Inl e)
  then have "y = Inl e" using assms by (simp add: same_result_def)
  with Inl show ?thesis by (rule err)
next
  case (Inr p)
  obtain a rng1 where p: "p = (a, rng1)" by (cases p)
  show ?thesis
  proof (cases y)
    case (Inl e)
    then show ?thesis using assms Inr p by (simp add: same_result_def)
  next
    case yr: (Inr q)
    obtain b rng2 where q: "q = (b, rng2)" by (cases q)
    have "a = b" "same_draws rnd1 rng1 rnd2 rng2"
      using assms Inr p yr q by (simp_all add: same_result_def)
    then show ?thesis using Inr p yr q by (intro ok [of a rng1 rng2]) simp_all
  qed
qed

lemma infect_neighbors_same:
  "same_draws rnd1 rng1 rnd2 rng2 \<Longrightarrow>
   same_result rnd1 rnd2 (infect_neighbors rnd1 cur beta nbrs new rng1)
     (infect_neighbors rnd2 cur beta nbrs new rng2)"
proof (induction nbrs arbitrary: new rng1 rng2)
  case Nil
  then show ?case by (simp add: same_result_Inr)
next
  case (Cons nbr nbrs)
  note n = same_draws_next [OF Cons.prems]
  show ?case
  proof (cases "map_of cur nbr")
    case None
    then show ?thesis by (simp add: same_result_Inl)
  next
    case (Some s)
    show ?thesis
    proof (cases "s = ''S''")
      case True
      then show ?thesis
        using Some n(1) Cons.IH [OF n(2), of "AList.update nbr ''I'' new"] Cons.IH [OF n(2), of new]
        by (simp add: split_beta)
    next
      case False
      then show ?thesis using Some Cons.IH [OF Cons.prems, of new] by simp
    qed
  qed
qed

lemma visit_node_same:
  assumes "same_draws rnd1 rng1 rnd2 rng2"
  shows "same_result rnd1 rnd2 (visit_node rnd1 G cur beta gamma node new rng1)
     (visit_node rnd2 G cur beta gamma node new rng2)"
proof (cases "map_of cur node")
  case None
  then show ?thesis by (simp add: visit_node_def same_result_Inl)
next
  case (Some s)
  note n = same_draws_next [OF assms]
  show ?thesis
  proof (cases "s = ''I''")
    case True
    then show ?thesis
      using Some n(1) infect_neighbors_same [OF n(2), of cur beta "neighbors G node" new]
        same_result_Inr [OF n(2), of "AList.update node ''R'' new"]
      by (simp add: visit_node_def split_beta)
  next
    case False
    then show ?thesis using Some same_result_Inr [OF assms] by (simp add: visit_node_def)
  qed
qed

lemma sweep_nodes_same:
  "same_draws rnd1 rng1 rnd2 rng2 \<Longrightarrow>
   same_result rnd1 rnd2 (sweep_nodes rnd1 G cur beta gamma ns new rng1)
     (sweep_nodes rnd2 G cur beta gamma ns new rng2)"
proof (induction ns arbitrary: new rng1 rng2)
  case Nil
  then show ?case by (simp add: same_result_Inr)
next
  case (Cons node ns)
  from visit_node_same [OF Cons.prems, of G cur beta gamma node new] show ?case
  proof (cases rule: same_result_cases)
    case (err e)
    then show ?thesis by (simp add: same_result_Inl)
  next
    case (ok a r1 r2)
    then show ?thesis using Cons.IH [OF ok(3), of a] by simp
  qed
qed

lemma step_same:
  "same_draws rnd1 rng1 rnd2 rng2 \<Longrightarrow>
   same_result rnd1 rnd2 (step rnd1 G cur beta gamma rng1) (step rnd2 G cur beta gamma rng2)"
  unfolding step_def by (rule sweep_nodes_same)

lemma run_loop_same:
  "same_draws rnd1 rng1 rnd2 rng2 \<Longrightarrow>
   same_result rnd1 rnd2 (run_loop rnd1 G beta gamma k cur rng1 history)
     (run_loop rnd2 G beta gamma k cur rng2 history)"
proof (induction k arbitrary: cur rng1 rng2 history)
  case 0
  then show ?case by (simp add: same_result_Inr)
next
  case (Suc k)
  from step_same [OF Suc.prems, of G cur beta gamma] show ?case
  proof (cases rule: same_result_cases)
    case (err e)
    then show ?thesis by (simp add: same_result_Inl)
  next
    case (ok a r1 r2)
    then show ?thesis using Suc.IH [OF ok(3), of a "history @ [cur]"] by simp
  qed
qed

text \<open>
  Claim C4. The history \<open>run_simulation\<close> returns (or the error it raises) depends on the
  random source only through the numbers it draws: two generators, in whatever states, that
  produce the same sequence of draws give the same history for the same graph, initial
  state, \<open>beta\<close>, \<open>gamma\<close> and step count. In particular two calls that start from the
  same generator state, as after \<open>random.seed(S)\<close> with the same \<open>S\<close>, return identical
  histories. The function has no seed argument of its own: the seed is the state of the
  global generator when the call starts.
\<close>

theorem run_simulation_deterministic:
  assumes "\<forall>k. draws rnd1 rng1 k = draws rnd2 rng2 k"
  shows "map_sum id fst (run_simulation rnd1 G status0 beta gamma max_steps rng1)
       = map_sum id fst (run_simulation rnd2 G status0 beta gamma max_steps rng2)"
proof -
  have "same_draws rnd1 rng1 rnd2 rng2" using assms by (simp add: same_draws_def)
  from run_loop_same [OF this, of G beta gamma "nat ((max_steps + 1) * 5)" status0 "[]"]
  show ?thesis
    unfolding run_simulation_def by (cases rule: same_result_cases) simp_all
qed

lemma tape_constant_draws: "draws tape_random (replicate (Suc m) c) k = replicate k c"
proof (induction k)
  case 0
  then show ?case by simp
next
  case (Suc k)
  have "tape_random (replicate (Suc m) c) = (c, replicate (Suc m) c)"
    by (simp add: tape_random_def replicate_append_same)
  then show ?case using Suc by simp
qed

lemma tape_constant_same:
  "draws tape_random [1/2] k = draws tape_random [1/2, 1/2] k"
  using tape_constant_draws [of 0 "1/2" k] tape_constant_draws [of 1 "1/2" k] by simp

text \<open>
  The determinism theorem of claim C4 for two tapes of different length that both replay
  the draw one half.
\<close>

theorem run_simulation_deterministic_witness:
  "(\<forall>k. draws tape_random [1/2] k = draws tape_random [1/2, 1/2] k)
   \<and> map_sum id fst (run_simulation tape_random two_nodes [(0, ''I''), (1, ''S'')] (3/4) (1/4) 2 [1/2])
       = map_sum id fst (run_simulation tape_random two_nodes [(0, ''I''), (1, ''S'')] (3/4) (1/4) 2 [1/2, 1/2])"
proof -
  have d: "\<forall>k. draws tape_random [1/2] k = draws tape_random [1/2, 1/2] k"
    using tape_constant_same by blast
  from run_simulation_deterministic [OF d, of two_nodes "[(0, ''I''), (1, ''S'')]" "3/4" "1/4" 2] d
  show ?thesis by blast
qed

subsection \<open>Parameters out of range\<close>





end
